theory Spec2Isabelle
  imports Main "HOL-Library.AList" "HOL-Library.Sublist"
begin

section \<open>Data model of the CSP solver (Assignment.py)\<close>

text \<open>
  Exceptions the solver can raise: a failed dictionary lookup (\<open>KeyError\<close>) and
  indexing an empty list (\<open>IndexError\<close>).
\<close>

datatype error = KeyError | IndexError

text \<open>
  Python dictionaries keep insertion order, and the solver depends on it
  (\<open>get_all_arcs\<close>, \<open>select_unassigned_variable\<close>), so a dictionary is an
  association list; \<open>AList.update\<close> overwrites in place or appends, as
  \<open>d[k] = v\<close> does, and \<open>map_of\<close> is \<open>d[k]\<close>.
\<close>

type_synonym ('k, 'v) assignment = "('k \<times> 'v list) list"

type_synonym 'k arc = "'k \<times> 'k"

record ('k, 'v) csp =
  variables :: "'k list"
  domains :: "('k \<times> 'v list) list"
  constraints :: "('k \<times> ('k \<times> ('v \<times> 'v) list) list) list"

text \<open>The two module-level counters.\<close>

record counters =
  backtrack_call_count :: nat
  failure_count :: nat

definition CSP_init :: "('k, 'v) csp" where
  "CSP_init = \<lparr>variables = [], domains = [], constraints = []\<rparr>"

definition counters_init :: counters where
  "counters_init = \<lparr>backtrack_call_count = 0, failure_count = 0\<rparr>"

section \<open>Model construction\<close>

definition add_variable :: "'k \<Rightarrow> 'v list \<Rightarrow> ('k, 'v) csp \<Rightarrow> ('k, 'v) csp" where
  "add_variable name domain csp =
     csp\<lparr>variables := variables csp @ [name],
         domains := AList.update name domain (domains csp),
         constraints := AList.update name [] (constraints csp)\<rparr>"

definition get_all_possible_pairs :: "'a list \<Rightarrow> 'b list \<Rightarrow> ('a \<times> 'b) list" where
  "get_all_possible_pairs a b = List.product a b"

definition get_all_arcs :: "('k, 'v) csp \<Rightarrow> 'k arc list" where
  "get_all_arcs csp =
     concat (map (\<lambda>(i, c_i). map (\<lambda>(j, pairs). (i, j)) c_i) (constraints csp))"

definition get_all_neighboring_arcs :: "('k, 'v) csp \<Rightarrow> 'k \<Rightarrow> error + 'k arc list" where
  "get_all_neighboring_arcs csp var =
     (case map_of (constraints csp) var of
        None \<Rightarrow> Inl KeyError
      | Some c_var \<Rightarrow> Inr (map (\<lambda>(i, pairs). (i, var)) c_var))"

definition add_constraint_one_way ::
  "'k \<Rightarrow> 'k \<Rightarrow> ('v \<Rightarrow> 'v \<Rightarrow> bool) \<Rightarrow> ('k, 'v) csp \<Rightarrow> error + ('k, 'v) csp" where
  "add_constraint_one_way i j filter_function csp =
     (case map_of (constraints csp) i of
        None \<Rightarrow> Inl KeyError
      | Some c_i \<Rightarrow>
          (case (case map_of c_i j of
                   Some pairs \<Rightarrow> Inr pairs
                 | None \<Rightarrow>
                     (case map_of (domains csp) i of
                        None \<Rightarrow> Inl KeyError
                      | Some d_i \<Rightarrow>
                          (case map_of (domains csp) j of
                             None \<Rightarrow> Inl KeyError
                           | Some d_j \<Rightarrow> Inr (get_all_possible_pairs d_i d_j)))) of
             Inl e \<Rightarrow> Inl e
           | Inr pairs \<Rightarrow>
               Inr (csp\<lparr>constraints :=
                      AList.update i
                        (AList.update j (filter (\<lambda>(x, y). filter_function x y) pairs) c_i)
                        (constraints csp)\<rparr>)))"

text \<open>\<open>add_all_different_constraint\<close>: the loop over all ordered pairs of the group.\<close>

fun add_all_different_loop ::
  "('k \<times> 'k) list \<Rightarrow> ('k, 'v) csp \<Rightarrow> error + ('k, 'v) csp" where
  "add_all_different_loop [] csp = Inr csp"
| "add_all_different_loop ((i, j) # rest) csp =
     (if i \<noteq> j then
        (case add_constraint_one_way i j (\<lambda>x y. x \<noteq> y) csp of
           Inl e \<Rightarrow> Inl e
         | Inr csp' \<Rightarrow> add_all_different_loop rest csp')
      else add_all_different_loop rest csp)"

definition add_all_different_constraint :: "'k list \<Rightarrow> ('k, 'v) csp \<Rightarrow> error + ('k, 'v) csp" where
  "add_all_different_constraint var_list csp =
     add_all_different_loop (get_all_possible_pairs var_list var_list) csp"

section \<open>Revise\<close>

text \<open>
  Line 269: \<open>len(list(filter(lambda y: (x, y) in self.constraints[x_i][x_j],
  assignment[x_j])))\<close> is non-zero. \<open>assignment[x_j]\<close> is read first; the constraint
  table is read once per element of that list, so not at all when the list is empty.
\<close>

definition has_support ::
  "('k, 'v) csp \<Rightarrow> ('k, 'v) assignment \<Rightarrow> 'k \<Rightarrow> 'k \<Rightarrow> 'v \<Rightarrow> error + bool" where
  "has_support csp assignment x_i x_j x =
     (case map_of assignment x_j of
        None \<Rightarrow> Inl KeyError
      | Some d_j \<Rightarrow>
          if d_j = [] then Inr False
          else (case map_of (constraints csp) x_i of
                  None \<Rightarrow> Inl KeyError
                | Some c_i \<Rightarrow>
                    (case map_of c_i x_j of
                       None \<Rightarrow> Inl KeyError
                     | Some pairs \<Rightarrow> Inr (filter (\<lambda>y. (x, y) \<in> set pairs) d_j \<noteq> []))))"

text \<open>\<open>list.pop(i)\<close> for an index in range.\<close>

definition pop :: "nat \<Rightarrow> 'a list \<Rightarrow> 'a list" where
  "pop i xs = take i xs @ drop (Suc i) xs"

text \<open>
  The \<open>for i, x in enumerate(assignment[x_i])\<close> loop of \<open>revise\<close>. The list iterator
  holds an index into the list object and stops when the index reaches the current
  length; \<open>d\<close> is that list object, \<open>assignment\<close> the dictionary holding it under
  \<open>x_i\<close>. A \<open>pop\<close> shortens the list while the index still advances.
\<close>

function revise_loop ::
  "('k, 'v) csp \<Rightarrow> 'k \<Rightarrow> 'k \<Rightarrow> nat \<Rightarrow> 'v list \<Rightarrow> ('k, 'v) assignment \<Rightarrow> bool
     \<Rightarrow> error + (('k, 'v) assignment \<times> bool)" where
  "revise_loop csp x_i x_j i d assignment revised =
     (if i < length d then
        (case has_support csp assignment x_i x_j (d ! i) of
           Inl e \<Rightarrow> Inl e
         | Inr True \<Rightarrow> revise_loop csp x_i x_j (Suc i) d assignment revised
         | Inr False \<Rightarrow>
             revise_loop csp x_i x_j (Suc i) (pop i d)
               (AList.update x_i (pop i d) assignment) True)
      else Inr (assignment, revised))"
  by pat_completeness auto
termination
  by (relation "measure (\<lambda>(csp, x_i, x_j, i, d, assignment, revised). length d - i)")
     (auto simp: pop_def)

declare revise_loop.simps [simp del]

definition revise ::
  "('k, 'v) csp \<Rightarrow> ('k, 'v) assignment \<Rightarrow> 'k \<Rightarrow> 'k
     \<Rightarrow> error + (('k, 'v) assignment \<times> bool)" where
  "revise csp assignment x_i x_j =
     (case map_of assignment x_i of
        None \<Rightarrow> Inl KeyError
      | Some d \<Rightarrow> revise_loop csp x_i x_j 0 d assignment False)"

section \<open>AC-3\<close>

text \<open>
  The number of values left in all domains: the quantity that a revision strictly
  decreases, used to show that the queue loop and the search stop.
\<close>

definition dom_size :: "('k, 'v) assignment \<Rightarrow> nat" where
  "dom_size assignment = sum_list (map (\<lambda>(k, d). length d) assignment)"

lemma dom_size_update:
  "map_of a k = Some d \<Longrightarrow> dom_size (AList.update k d' a) + length d = dom_size a + length d'"
  by (induction a) (auto simp: dom_size_def)

lemma map_of_update_same: "map_of (AList.update k v a) k = Some v"
  by (simp add: update_conv')

lemma length_pop: "i < length d \<Longrightarrow> length (pop i d) = length d - 1"
  by (auto simp: pop_def)

lemma revise_loop_shrinks:
  "revise_loop csp x_i x_j i d a rv = Inr (a', r) \<Longrightarrow> map_of a x_i = Some d \<Longrightarrow>
     dom_size a' \<le> dom_size a \<and> (rv \<longrightarrow> r) \<and> (\<not> rv \<and> r \<longrightarrow> dom_size a' < dom_size a)
       \<and> (\<not> r \<longrightarrow> a' = a)"
proof (induction csp x_i x_j i d a rv rule: revise_loop.induct)
  case (1 csp x_i x_j i d a rv)
  note unf = revise_loop.simps[of csp x_i x_j i d a rv]
  show ?case
  proof (cases "i < length d")
    case False
    with "1.prems" unf show ?thesis by simp
  next
    case True
    note lt = True
    show ?thesis
    proof (cases "has_support csp a x_i x_j (d ! i)")
      case (Inl e)
      with lt "1.prems" unf show ?thesis by simp
    next
      case (Inr b)
      show ?thesis
      proof (cases b)
        case True
        with Inr lt "1.prems" unf "1.IH"(1)[OF lt Inr] show ?thesis by simp
      next
        case False
        let ?a = "AList.update x_i (pop i d) a"
        from False Inr lt "1.prems" unf
        have run: "revise_loop csp x_i x_j (Suc i) (pop i d) ?a True = Inr (a', r)" by simp
        have m: "map_of ?a x_i = Some (pop i d)" by (rule map_of_update_same)
        from False have bF: "b = False" by simp
        from "1.IH"(2)[OF lt Inr bF run m]
        have ih: "dom_size a' \<le> dom_size ?a" "r" by auto
        from dom_size_update[OF "1.prems"(2), of "pop i d"] length_pop[OF lt] lt
        have "dom_size ?a < dom_size a" by simp
        with ih show ?thesis by simp
      qed
    qed
  qed
qed

lemma revise_shrinks:
  assumes "revise csp a x_i x_j = Inr (a', r)"
  shows "dom_size a' \<le> dom_size a" and "r \<Longrightarrow> dom_size a' < dom_size a" and "\<not> r \<Longrightarrow> a' = a"
  using assms revise_loop_shrinks[of csp x_i x_j 0 _ a False a' r]
  by (auto simp: revise_def split: option.splits)

text \<open>
  \<open>inference\<close> (lines 205-237). The result is the returned value (\<open>None\<close> for
  \<open>False\<close>) paired with the state in which the call leaves the dictionary it was
  given, since \<open>revise\<close> mutates that dictionary in place. An arc is popped as
  \<open>(x_j, x_i)\<close>; the test \<open>x_j not in x\<close> on a 2-tuple compares \<open>x_j\<close> with
  both components.
\<close>

function inference ::
  "('k, 'v) csp \<Rightarrow> ('k, 'v) assignment \<Rightarrow> 'k arc list
     \<Rightarrow> error + (('k, 'v) assignment option \<times> ('k, 'v) assignment)" where
  "inference csp assignment [] = Inr (Some assignment, assignment)"
| "inference csp assignment ((x_j, x_i) # queue) =
     (case revise csp assignment x_i x_j of
        Inl e \<Rightarrow> Inl e
      | Inr (assignment', revised) \<Rightarrow>
          if revised then
            (case map_of assignment' x_i of
               None \<Rightarrow> Inl KeyError
             | Some d \<Rightarrow>
                 if d = [] then Inr (None, assignment')
                 else (case get_all_neighboring_arcs csp x_i of
                         Inl e \<Rightarrow> Inl e
                       | Inr arcs \<Rightarrow>
                           inference csp assignment'
                             (queue @ filter (\<lambda>x. x_j \<noteq> fst x \<and> x_j \<noteq> snd x) arcs)))
          else inference csp assignment' queue)"
  by pat_completeness auto
termination
proof (relation "measures [\<lambda>(csp, a, q). dom_size a, \<lambda>(csp, a, q). length q]", goal_cases)
  case 1
  show ?case by simp
next
  case (2 csp assignment x_j x_i queue x2 x1 y2)
  then show ?case using revise_shrinks(2) by fastforce
next
  case (3 csp assignment x_j x_i queue x2 x1 y2)
  then show ?case using revise_shrinks(3) by fastforce
qed

lemma revise_loop_frame:
  "revise_loop csp x_i x_j i d a rv = Inr (a', r) \<Longrightarrow> map_of a x_i = Some d \<Longrightarrow>
     \<exists>d'. a' = AList.update x_i d' a \<and> map_of a' x_i = Some d'"
proof (induction csp x_i x_j i d a rv rule: revise_loop.induct)
  case (1 csp x_i x_j i d a rv)
  note unf = revise_loop.simps[of csp x_i x_j i d a rv]
  show ?case
  proof (cases "i < length d")
    case False
    with "1.prems" unf show ?thesis by (auto simp: update_triv intro!: exI[of _ d])
  next
    case True
    note lt = True
    show ?thesis
    proof (cases "has_support csp a x_i x_j (d ! i)")
      case (Inl e)
      with lt "1.prems" unf show ?thesis by simp
    next
      case (Inr b)
      show ?thesis
      proof (cases b)
        case True
        with Inr lt "1.prems" unf "1.IH"(1)[OF lt Inr] show ?thesis by simp
      next
        case False
        let ?a = "AList.update x_i (pop i d) a"
        from False Inr lt "1.prems" unf
        have run: "revise_loop csp x_i x_j (Suc i) (pop i d) ?a True = Inr (a', r)" by simp
        have m: "map_of ?a x_i = Some (pop i d)" by (rule map_of_update_same)
        from False have bF: "b = False" by simp
        from "1.IH"(2)[OF lt Inr bF run m] show ?thesis by (auto simp: update_last)
      qed
    qed
  qed
qed

lemma revise_frame:
  "revise csp a x_i x_j = Inr (a', r) \<Longrightarrow>
     \<exists>d'. a' = AList.update x_i d' a \<and> map_of a' x_i = Some d'"
  using revise_loop_frame[of csp x_i x_j 0 _ a False a' r]
  by (auto simp: revise_def split: option.splits)

lemma neighboring_arcs_target:
  "get_all_neighboring_arcs csp var = Inr arcs \<Longrightarrow> arc \<in> set arcs \<Longrightarrow> snd arc = var"
  by (auto simp: get_all_neighboring_arcs_def split: option.splits)

lemma inference_frame:
  "inference csp a q = Inr (res, a') \<Longrightarrow> \<forall>arc \<in> set q. snd arc = key \<Longrightarrow>
     AList.update key w a' = AList.update key w a"
proof (induction csp a q rule: inference.induct)
  case (1 csp assignment)
  then show ?case by simp
next
  case (2 csp assignment x_j x_i queue)
  from "2.prems"(2) have k: "x_i = key" and q: "\<forall>arc \<in> set queue. snd arc = key" by auto
  from "2.prems"(1) obtain a1 r where rv: "revise csp assignment x_i x_j = Inr (a1, r)"
    by (auto split: sum.splits)
  from revise_frame[OF rv] obtain d' where a1: "a1 = AList.update x_i d' assignment" by blast
  have step: "AList.update key w a1 = AList.update key w assignment"
    using a1 k by (simp add: update_last)
  show ?case
  proof (cases r)
    case False
    from "2.prems"(1) rv False have "inference csp a1 queue = Inr (res, a')" by simp
    from "2.IH"(2)[OF rv refl _ this q] False step show ?thesis by simp
  next
    case True
    show ?thesis
    proof (cases "map_of a1 x_i")
      case None
      with "2.prems"(1) rv True show ?thesis by simp
    next
      case (Some d)
      show ?thesis
      proof (cases "d = []")
        case True
        with "2.prems"(1) rv \<open>r\<close> Some step show ?thesis by simp
      next
        case False
        from "2.prems"(1) rv \<open>r\<close> Some False obtain arcs where
          ga: "get_all_neighboring_arcs csp x_i = Inr arcs"
          by (auto split: sum.splits)
        let ?q = "queue @ filter (\<lambda>x. x_j \<noteq> fst x \<and> x_j \<noteq> snd x) arcs"
        from "2.prems"(1) rv \<open>r\<close> Some False ga
        have run: "inference csp a1 ?q = Inr (res, a')" by simp
        have tq: "\<forall>arc \<in> set ?q. snd arc = key"
          using q neighboring_arcs_target[OF ga] k by auto
        from "2.IH"(1)[OF rv refl \<open>r\<close> Some False ga run tq] step show ?thesis by simp
      qed
    qed
  qed
qed

lemma inference_size:
  "inference csp a q = Inr (res, a') \<Longrightarrow> dom_size a' \<le> dom_size a"
proof (induction csp a q rule: inference.induct)
  case (1 csp assignment)
  then show ?case by simp
next
  case (2 csp assignment x_j x_i queue)
  from "2.prems"(1) obtain a1 r where rv: "revise csp assignment x_i x_j = Inr (a1, r)"
    by (auto split: sum.splits)
  note le = revise_shrinks(1)[OF rv]
  show ?case
  proof (cases r)
    case False
    from "2.prems"(1) rv False have "inference csp a1 queue = Inr (res, a')" by simp
    from "2.IH"(2)[OF rv refl _ this] False le show ?thesis by simp
  next
    case True
    show ?thesis
    proof (cases "map_of a1 x_i")
      case None
      with "2.prems"(1) rv True show ?thesis by simp
    next
      case (Some d)
      show ?thesis
      proof (cases "d = []")
        case True
        with "2.prems"(1) rv \<open>r\<close> Some le show ?thesis by simp
      next
        case False
        from "2.prems"(1) rv \<open>r\<close> Some False obtain arcs where
          ga: "get_all_neighboring_arcs csp x_i = Inr arcs"
          by (auto split: sum.splits)
        let ?q = "queue @ filter (\<lambda>x. x_j \<noteq> fst x \<and> x_j \<noteq> snd x) arcs"
        from "2.prems"(1) rv \<open>r\<close> Some False ga
        have run: "inference csp a1 ?q = Inr (res, a')" by simp
        from "2.IH"(1)[OF rv refl \<open>r\<close> Some False ga run] le show ?thesis by simp
      qed
    qed
  qed
qed

lemma dom_size_update_single:
  "dom_size (AList.update k [v] a) = Suc (dom_size (AList.update k [] a))"
  by (induction a) (auto simp: dom_size_def)

lemma neighboring_arcs_all_target:
  "get_all_neighboring_arcs csp var = Inr arcs \<Longrightarrow> \<forall>arc \<in> set arcs. snd arc = var"
  by (auto simp: get_all_neighboring_arcs_def split: option.splits)

lemma try_frame:
  assumes "get_all_neighboring_arcs csp key = Inr arcs"
    and "inference csp (AList.update key [v] a) arcs = Inr (res, a')"
  shows "AList.update key w a' = AList.update key w a"
  using inference_frame[OF assms(2) neighboring_arcs_all_target[OF assms(1)], of w]
  by (simp add: update_last)

section \<open>Backtracking search\<close>

text \<open>
  Python truth value of what \<open>inference\<close> and \<open>backtrack\<close> return: \<open>False\<close> and
  the empty dictionary are falsy.
\<close>

definition truthy :: "('k, 'v) assignment option \<Rightarrow> bool" where
  "truthy res = (case res of None \<Rightarrow> False | Some d \<Rightarrow> d \<noteq> [])"

definition select_unassigned_variable :: "('k, 'v) assignment \<Rightarrow> error + 'k" where
  "select_unassigned_variable assignment =
     (case filter (\<lambda>key. case map_of assignment key of
                               None \<Rightarrow> False
                             | Some d \<Rightarrow> length d > 1)
             (map fst assignment) of
        [] \<Rightarrow> Inl IndexError
      | key # _ \<Rightarrow> Inr key)"

lemma select_unassigned_variable_len:
  assumes "select_unassigned_variable a = Inr key" and "map_of a key = Some d"
  shows "length d > 1"
proof -
  let ?P = "\<lambda>key. case map_of a key of None \<Rightarrow> False | Some d \<Rightarrow> length d > 1"
  from assms(1) obtain ks where "filter ?P (map fst a) = key # ks"
    by (auto simp: select_unassigned_variable_def split: list.splits)
  then have "key \<in> set (filter ?P (map fst a))" by simp
  then have "?P key" by simp
  with assms(2) show ?thesis by simp
qed

text \<open>
  \<open>backtrack\<close> (lines 151-203) and its \<open>for value in var\<close> loop. The deep copy
  \<open>ass2\<close> is made once per call; the loop overwrites \<open>ass2[key]\<close> with a fresh
  one-element list for each candidate and hands the same dictionary to \<open>inference\<close>,
  so the state \<open>inference\<close> leaves behind is threaded to the next candidate. The
  counters are the module-level globals, passed through.
\<close>

function backtrack ::
  "('k, 'v::linorder) csp \<Rightarrow> ('k, 'v) assignment \<Rightarrow> counters
     \<Rightarrow> (error + ('k, 'v) assignment option) \<times> counters"
and try_values ::
  "('k, 'v::linorder) csp \<Rightarrow> 'k \<Rightarrow> ('k, 'v) assignment \<Rightarrow> 'v list \<Rightarrow> counters
     \<Rightarrow> (error + ('k, 'v) assignment option) \<times> counters" where
  "backtrack csp assignment cnt =
     (if list_all (\<lambda>x. length x = 1) (map snd assignment)
      then (Inr (Some assignment),
            cnt\<lparr>backtrack_call_count := backtrack_call_count cnt + 1\<rparr>)
      else (case select_unassigned_variable assignment of
              Inl e \<Rightarrow> (Inl e, cnt\<lparr>backtrack_call_count := backtrack_call_count cnt + 1\<rparr>)
            | Inr key \<Rightarrow>
                (case map_of assignment key of
                   None \<Rightarrow>
                     (Inl KeyError, cnt\<lparr>backtrack_call_count := backtrack_call_count cnt + 1\<rparr>)
                 | Some var \<Rightarrow>
                     try_values csp key (AList.update key (sort var) assignment) (sort var)
                       (cnt\<lparr>backtrack_call_count := backtrack_call_count cnt + 1\<rparr>))))"
| "try_values csp key ass2 [] cnt = (Inr None, cnt\<lparr>failure_count := failure_count cnt + 1\<rparr>)"
| "try_values csp key ass2 (val # rest) cnt =
     (case get_all_neighboring_arcs csp key of
        Inl e \<Rightarrow> (Inl e, cnt)
      | Inr arcs \<Rightarrow>
          (case inference csp (AList.update key [val] ass2) arcs of
             Inl e \<Rightarrow> (Inl e, cnt)
           | Inr (inf_res, ass2') \<Rightarrow>
               if truthy inf_res then
                 (case backtrack csp ass2' cnt of
                    (Inl e, cnt') \<Rightarrow> (Inl e, cnt')
                  | (Inr res, cnt') \<Rightarrow>
                      if truthy res then (Inr res, cnt')
                      else try_values csp key ass2' rest cnt')
               else try_values csp key ass2' rest cnt))"
  by pat_completeness auto
termination
  apply (relation "measures [\<lambda>x. case x of Inl (csp, a, c) \<Rightarrow> 2 * dom_size a
                                | Inr (csp, key, a, vs, c) \<Rightarrow> 2 * dom_size (AList.update key [] a) + 3,
                            \<lambda>x. case x of Inl _ \<Rightarrow> 0 | Inr (csp, key, a, vs, c) \<Rightarrow> length vs]")
  subgoal by simp
  subgoal for csp assignment cnt key var
    using select_unassigned_variable_len[of assignment key var]
      dom_size_update[of assignment key var "[]"]
    by (simp add: update_last)
  subgoal for csp key ass2 val rest cnt arcs ba inf_res ass2'
    using inference_size[of csp "AList.update key [val] ass2" arcs inf_res ass2']
    by (simp add: dom_size_update_single)
  subgoal for csp key ass2 val rest cnt arcs ba inf_res ass2'
    using try_frame[of csp key arcs val ass2 inf_res ass2' "[]"] by simp
  subgoal for csp key ass2 val rest cnt arcs ba inf_res ass2'
    using try_frame[of csp key arcs val ass2 inf_res ass2' "[]"] by simp
  done

declare backtrack.simps [simp del]

text \<open>\<open>backtracking_search\<close> (lines 134-149): the result of the pre-pass is not inspected.\<close>

definition backtracking_search ::
  "('k, 'v::linorder) csp \<Rightarrow> counters \<Rightarrow> (error + ('k, 'v) assignment option) \<times> counters" where
  "backtracking_search csp cnt =
     (case inference csp (domains csp) (get_all_arcs csp) of
        Inl e \<Rightarrow> (Inl e, cnt)
      | Inr (inf_res, assignment) \<Rightarrow> backtrack csp assignment cnt)"

section \<open>What a solution is\<close>

text \<open>The legal-pair list registered for the ordered pair \<open>(i, j)\<close>, if any.\<close>

definition constraint_of :: "('k, 'v) csp \<Rightarrow> 'k \<Rightarrow> 'k \<Rightarrow> ('v \<times> 'v) list option" where
  "constraint_of csp i j =
     (case map_of (constraints csp) i of None \<Rightarrow> None | Some c_i \<Rightarrow> map_of c_i j)"

definition pair_satisfied :: "('k, 'v) assignment \<Rightarrow> 'k \<Rightarrow> 'k \<Rightarrow> ('v \<times> 'v) list \<Rightarrow> bool" where
  "pair_satisfied sol i j pairs =
     (case map_of sol i of
        Some [value_i] \<Rightarrow>
          (case map_of sol j of
             Some [value_j] \<Rightarrow> (value_i, value_j) \<in> set pairs
           | _ \<Rightarrow> False)
      | _ \<Rightarrow> False)"

text \<open>
  A solution of a model: the same variables as the model's domains, every domain with
  exactly one value, and every registered constraint satisfied by the pair of values.
\<close>

definition is_solution :: "('k, 'v) csp \<Rightarrow> ('k, 'v) assignment \<Rightarrow> bool" where
  "is_solution csp sol =
     (map fst sol = map fst (domains csp) \<and>
      list_all (\<lambda>d. length d = 1) (map snd sol) \<and>
      list_all (\<lambda>(i, c_i). list_all (\<lambda>(j, pairs). pair_satisfied sol i j pairs) c_i)
        (constraints csp))"

section \<open>Concrete models\<close>

text \<open>
  Two variables \<open>A\<close> in \<open>{1, 2}\<close> and \<open>B\<close> in \<open>{3, 4}\<close> that must be equal,
  registered in both directions: no pair is legal.
\<close>

definition csp_equal :: "(string, int) csp" where
  "csp_equal =
     \<lparr>variables = [''A'', ''B''],
      domains = [(''A'', [1, 2]), (''B'', [3, 4])],
      constraints = [(''A'', [(''B'', [])]), (''B'', [(''A'', [])])]\<rparr>"

lemma csp_equal_built:
  "(case add_constraint_one_way ''A'' ''B'' (=)
           (add_variable ''B'' [3, 4] (add_variable ''A'' [1, 2] CSP_init)) of
      Inl e \<Rightarrow> Inl e
    | Inr m \<Rightarrow> add_constraint_one_way ''B'' ''A'' (=) m) = Inr csp_equal"
  by code_simp

text \<open>\<open>A = {1}\<close>, \<open>B = {1}\<close>, required to differ, both directions registered.\<close>

definition csp_unequal :: "(string, int) csp" where
  "csp_unequal =
     \<lparr>variables = [''A'', ''B''],
      domains = [(''A'', [1]), (''B'', [1])],
      constraints = [(''A'', [(''B'', [])]), (''B'', [(''A'', [])])]\<rparr>"

lemma csp_unequal_built:
  "(case add_constraint_one_way ''A'' ''B'' (\<lambda>x y. x \<noteq> y)
           (add_variable ''B'' [1] (add_variable ''A'' [1] CSP_init)) of
      Inl e \<Rightarrow> Inl e
    | Inr m \<Rightarrow> add_constraint_one_way ''B'' ''A'' (\<lambda>x y. x \<noteq> y) m) = Inr csp_unequal"
  by code_simp

text \<open>\<open>A\<close> in \<open>{1, 2, 3, 5}\<close> and \<open>B = {5}\<close>, required to be equal.\<close>

definition csp_chain :: "(string, int) csp" where
  "csp_chain =
     \<lparr>variables = [''A'', ''B''],
      domains = [(''A'', [1, 2, 3, 5]), (''B'', [5])],
      constraints = [(''A'', [(''B'', [(5, 5)])]), (''B'', [(''A'', [(5, 5)])])]\<rparr>"

lemma csp_chain_built:
  "(case add_constraint_one_way ''A'' ''B'' (=)
           (add_variable ''B'' [5] (add_variable ''A'' [1, 2, 3, 5] CSP_init)) of
      Inl e \<Rightarrow> Inl e
    | Inr m \<Rightarrow> add_constraint_one_way ''B'' ''A'' (=) m) = Inr csp_chain"
  by code_simp

text \<open>Two variables over \<open>{1, 2}\<close> that must differ: satisfiable.\<close>

definition csp_differ :: "(string, int) csp" where
  "csp_differ =
     \<lparr>variables = [''A'', ''B''],
      domains = [(''A'', [1, 2]), (''B'', [1, 2])],
      constraints = [(''A'', [(''B'', [(1, 2), (2, 1)])]),
                     (''B'', [(''A'', [(1, 2), (2, 1)])])]\<rparr>"

lemma csp_differ_built:
  "add_all_different_constraint [''A'', ''B'']
     (add_variable ''B'' [1, 2] (add_variable ''A'' [1, 2] CSP_init)) = Inr csp_differ"
  by code_simp

text \<open>Three variables over \<open>{1, 2}\<close> that must all differ: unsatisfiable.\<close>

definition csp_pigeon :: "(string, int) csp" where
  "csp_pigeon =
     \<lparr>variables = [''A'', ''B'', ''C''],
      domains = [(''A'', [1, 2]), (''B'', [1, 2]), (''C'', [1, 2])],
      constraints =
        [(''A'', [(''B'', [(1, 2), (2, 1)]), (''C'', [(1, 2), (2, 1)])]),
         (''B'', [(''A'', [(1, 2), (2, 1)]), (''C'', [(1, 2), (2, 1)])]),
         (''C'', [(''A'', [(1, 2), (2, 1)]), (''B'', [(1, 2), (2, 1)])])]\<rparr>"

lemma csp_pigeon_built:
  "add_all_different_constraint [''A'', ''B'', ''C'']
     (add_variable ''C'' [1, 2] (add_variable ''B'' [1, 2] (add_variable ''A'' [1, 2] CSP_init)))
   = Inr csp_pigeon"
  by code_simp

text \<open>
  \<open>A = {1}\<close>, \<open>B = {1}\<close>, required to be equal, registered from \<open>A\<close> to \<open>B\<close>
  only.
\<close>

definition csp_one_way :: "(string, int) csp" where
  "csp_one_way =
     \<lparr>variables = [''A'', ''B''],
      domains = [(''A'', [1]), (''B'', [1])],
      constraints = [(''A'', [(''B'', [(1, 1)])]), (''B'', [])]\<rparr>"

lemma csp_one_way_built:
  "add_constraint_one_way ''A'' ''B'' (=)
     (add_variable ''B'' [1] (add_variable ''A'' [1] CSP_init)) = Inr csp_one_way"
  by code_simp

text \<open>
  \<open>B = {3}\<close> registered first, \<open>A\<close> in \<open>{1, 2}\<close>, required to be equal: the
  pre-pass first removes \<open>1\<close> from \<open>A\<close>, then empties \<open>B\<close>.
\<close>

definition csp_late :: "(string, int) csp" where
  "csp_late =
     \<lparr>variables = [''B'', ''A''],
      domains = [(''B'', [3]), (''A'', [1, 2])],
      constraints = [(''B'', [(''A'', [])]), (''A'', [(''B'', [])])]\<rparr>"

lemma csp_late_built:
  "(case add_constraint_one_way ''B'' ''A'' (=)
           (add_variable ''A'' [1, 2] (add_variable ''B'' [3] CSP_init)) of
      Inl e \<Rightarrow> Inl e
    | Inr m \<Rightarrow> add_constraint_one_way ''A'' ''B'' (=) m) = Inr csp_late"
  by code_simp

section \<open>Counters\<close>

text \<open>
  Adding a fixed amount to both counters before a search adds the same amount after it
  and changes nothing else: the search only ever increments them.
\<close>

definition add_counters :: "counters \<Rightarrow> counters \<Rightarrow> counters" where
  "add_counters c d =
     \<lparr>backtrack_call_count = backtrack_call_count c + backtrack_call_count d,
      failure_count = failure_count c + failure_count d\<rparr>"

lemma search_shift:
  fixes d :: counters
  shows "backtrack csp a c = (r, c') \<Longrightarrow> backtrack csp a (add_counters c d) = (r, add_counters c' d)"
    and "try_values csp key ass2 vs c = (r, c')
           \<Longrightarrow> try_values csp key ass2 vs (add_counters c d) = (r, add_counters c' d)"
proof (induction csp a c and csp key ass2 vs c arbitrary: r c' and r c'
       rule: backtrack_try_values.induct)
  case (1 csp assignment cnt)
  show ?case
    using "1.prems" "1.IH"
    by (subst backtrack.simps, subst (asm) backtrack.simps)
       (auto simp: add_counters_def split: if_splits sum.splits option.splits)
next
  case (2 csp key ass2 cnt)
  then show ?case by (auto simp: add_counters_def)
next
  case (3 csp key ass2 val rest cnt)
  show ?case
  proof (cases "get_all_neighboring_arcs csp key")
    case (Inl e)
    with "3.prems" show ?thesis by auto
  next
    case (Inr arcs)
    note ga = Inr
    show ?thesis
    proof (cases "inference csp (AList.update key [val] ass2) arcs")
      case (Inl e)
      with ga "3.prems" show ?thesis by auto
    next
      case (Inr ba)
      obtain inf_res ass2' where ba: "ba = (inf_res, ass2')" by (cases ba)
      note inf = Inr[unfolded ba]
      show ?thesis
      proof (cases "truthy inf_res")
        case False
        with ga inf "3.prems" have "try_values csp key ass2' rest cnt = (r, c')" by simp
        from "3.IH"(3)[OF ga inf refl False this] ga inf False show ?thesis by simp
      next
        case True
        obtain xa ya where bt: "backtrack csp ass2' cnt = (xa, ya)" by fastforce
        from "3.IH"(1)[OF ga inf refl True bt]
        have bt': "backtrack csp ass2' (add_counters cnt d) = (xa, add_counters ya d)" .
        show ?thesis
        proof (cases xa)
          case (Inl e)
          with ga inf True bt bt' "3.prems" show ?thesis by auto
        next
          case (Inr res)
          show ?thesis
          proof (cases "truthy res")
            case True
            with Inr ga inf \<open>truthy inf_res\<close> bt bt' "3.prems" show ?thesis by auto
          next
            case False
            with Inr ga inf \<open>truthy inf_res\<close> bt "3.prems"
            have "try_values csp key ass2' rest ya = (r, c')" by simp
            from "3.IH"(2)[OF ga inf refl \<open>truthy inf_res\<close> bt[symmetric] Inr False this]
            show ?thesis using Inr ga inf \<open>truthy inf_res\<close> bt' False by simp
          qed
        qed
      qed
    qed
  qed
qed

lemma add_counters_init: "add_counters counters_init d = d"
  by (simp add: add_counters_def counters_init_def)

section \<open>The queue loop with a bound on its iterations\<close>

text \<open>
  The \<open>while len(queue)\<close> loop of \<open>inference\<close> again, with a budget of iterations:
  \<open>None\<close> means the budget ran out before the loop returned. Every branch is that
  of \<open>inference\<close>.
\<close>

fun inference_fuel ::
  "nat \<Rightarrow> ('k, 'v) csp \<Rightarrow> ('k, 'v) assignment \<Rightarrow> 'k arc list
     \<Rightarrow> (error + (('k, 'v) assignment option \<times> ('k, 'v) assignment)) option" where
  "inference_fuel fuel csp assignment [] = Some (Inr (Some assignment, assignment))"
| "inference_fuel 0 csp assignment (arc # queue) = None"
| "inference_fuel (Suc fuel) csp assignment ((x_j, x_i) # queue) =
     (case revise csp assignment x_i x_j of
        Inl e \<Rightarrow> Some (Inl e)
      | Inr (assignment', revised) \<Rightarrow>
          if revised then
            (case map_of assignment' x_i of
               None \<Rightarrow> Some (Inl KeyError)
             | Some d \<Rightarrow>
                 if d = [] then Some (Inr (None, assignment'))
                 else (case get_all_neighboring_arcs csp x_i of
                         Inl e \<Rightarrow> Some (Inl e)
                       | Inr arcs \<Rightarrow>
                           inference_fuel fuel csp assignment'
                             (queue @ filter (\<lambda>x. x_j \<noteq> fst x \<and> x_j \<noteq> snd x) arcs)))
          else inference_fuel fuel csp assignment' queue)"

lemma length_get_all_arcs:
  "length (get_all_arcs csp) = sum_list (map (\<lambda>(i, c_i). length c_i) (constraints csp))"
  by (simp add: get_all_arcs_def length_concat comp_def case_prod_unfold)

lemma sum_list_entry_le:
  "(x, c) \<in> set cs \<Longrightarrow> length c \<le> sum_list (map (\<lambda>(i, c_i). length c_i) cs)"
  by (induction cs) auto

lemma neighboring_arcs_length:
  assumes "get_all_neighboring_arcs csp x = Inr arcs"
  shows "length arcs \<le> length (get_all_arcs csp)"
proof -
  from assms obtain c where c: "map_of (constraints csp) x = Some c" and a: "length arcs = length c"
    by (auto simp: get_all_neighboring_arcs_def split: option.splits)
  from c have "(x, c) \<in> set (constraints csp)" by (rule map_of_SomeD)
  then have "length c \<le> sum_list (map (\<lambda>(i, c_i). length c_i) (constraints csp))"
    by (rule sum_list_entry_le)
  with a show ?thesis by (simp add: length_get_all_arcs)
qed

lemma fuel_arith:
  fixes l :: nat
  assumes "lq \<le> l + n" and "Suc d1 \<le> d"
  shows "\<exists>k'. l + d * n + k = lq + d1 * n + k'"
proof -
  from assms(2) have "Suc d1 * n \<le> d * n" by (rule mult_le_mono1)
  then have "d1 * n + n \<le> d * n" by simp
  with assms(1) have "lq + d1 * n \<le> l + d * n + k" by linarith
  then show ?thesis by (rule le_Suc_ex)
qed

section \<open>The candidate loop on a fresh clone per candidate\<close>

text \<open>
  The loop of \<open>backtrack\<close> as its docstring and the specification describe it: every
  candidate value is tried on a clone of the snapshot taken before the loop, so
  nothing a try does to its dictionary can reach the next try.
\<close>

fun try_values_cloned ::
  "('k, 'v::linorder) csp \<Rightarrow> 'k \<Rightarrow> ('k, 'v) assignment \<Rightarrow> 'v list \<Rightarrow> counters
     \<Rightarrow> (error + ('k, 'v) assignment option) \<times> counters" where
  "try_values_cloned csp key snapshot [] cnt =
     (Inr None, cnt\<lparr>failure_count := failure_count cnt + 1\<rparr>)"
| "try_values_cloned csp key snapshot (val # rest) cnt =
     (case get_all_neighboring_arcs csp key of
        Inl e \<Rightarrow> (Inl e, cnt)
      | Inr arcs \<Rightarrow>
          (case inference csp (AList.update key [val] snapshot) arcs of
             Inl e \<Rightarrow> (Inl e, cnt)
           | Inr (inf_res, clone) \<Rightarrow>
               if truthy inf_res then
                 (case backtrack csp clone cnt of
                    (Inl e, cnt') \<Rightarrow> (Inl e, cnt')
                  | (Inr res, cnt') \<Rightarrow>
                      if truthy res then (Inr res, cnt')
                      else try_values_cloned csp key snapshot rest cnt')
               else try_values_cloned csp key snapshot rest cnt))"

lemma try_values_frame:
  assumes "\<And>w. AList.update key w a1 = AList.update key w a2"
  shows "try_values csp key a1 vs c = try_values csp key a2 vs c"
proof (cases vs)
  case Nil
  then show ?thesis by simp
next
  case (Cons v rest)
  have e: "AList.update key [v] a1 = AList.update key [v] a2" by (rule assms)
  show ?thesis unfolding Cons try_values.simps e by (rule refl)
qed

section \<open>Registering a name twice\<close>

lemma constraint_of_update_same:
  "constraint_of (csp\<lparr>constraints := AList.update name [] (constraints csp)\<rparr>) name j = None"
  by (simp add: constraint_of_def update_conv')

lemma constraint_of_update_other:
  "i \<noteq> name \<Longrightarrow>
     constraint_of (csp\<lparr>constraints := AList.update name c (constraints csp)\<rparr>) i j
       = constraint_of csp i j"
  by (simp add: constraint_of_def update_conv')

section \<open>Models the search is complete on\<close>


definition well_formed :: "('k, 'v) csp \<Rightarrow> bool" where
  "well_formed csp =
     (distinct (map fst (domains csp)) \<and>
      list_all (\<lambda>k. map_of (constraints csp) k \<noteq> None) (map fst (domains csp)) \<and>
      list_all (\<lambda>(i, c_i). list_all (\<lambda>(j, pairs). map_of (domains csp) j \<noteq> None) c_i)
        (constraints csp))"


text \<open>
  The empty model is well-formed, and \<open>add_variable\<close> and
  \<open>add_constraint_one_way\<close> keep a model well-formed: every model the construction
  methods build satisfies \<open>well_formed\<close>.
\<close>

lemma set_update_cases:
  "x \<in> set (AList.update k v al) \<Longrightarrow> x = (k, v) \<or> x \<in> set al"
  by (induction al) (auto split: if_splits)

lemma well_formed_CSP_init: "well_formed CSP_init"
  by (simp add: well_formed_def CSP_init_def)

lemma well_formed_add_variable:
  assumes "well_formed csp"
  shows "well_formed (add_variable name d csp)"
proof -
  let ?doms = "AList.update name d (domains csp)"
  let ?cons = "AList.update name [] (constraints csp)"
  from assms have 1: "distinct (map fst ?doms)" by (simp add: well_formed_def distinct_update)
  have 2: "list_all (\<lambda>k. map_of ?cons k \<noteq> None) (map fst ?doms)"
    using assms by (auto simp: well_formed_def list_all_iff update_keys update_conv')
  have 3: "list_all (\<lambda>(i, c_i). list_all (\<lambda>(j, pairs). map_of ?doms j \<noteq> None) c_i) ?cons"
    unfolding list_all_iff
  proof
    fix e assume "e \<in> set ?cons"
    from set_update_cases[OF this] show "case e of (i, c_i) \<Rightarrow> \<forall>x\<in>set c_i. case x of (j, pairs) \<Rightarrow> map_of ?doms j \<noteq> None"
    proof
      assume "e = (name, [])" then show ?thesis by simp
    next
      assume "e \<in> set (constraints csp)"
      with assms show ?thesis
        by (fastforce simp: well_formed_def list_all_iff update_conv')
    qed
  qed
  from 1 2 3 show ?thesis by (simp add: well_formed_def add_variable_def)
qed

lemma well_formed_add_constraint_one_way:
  assumes "well_formed csp" and "add_constraint_one_way i j f csp = Inr csp'"
  shows "well_formed csp'"
proof -
  from assms(2) obtain c_i pairs where ci: "map_of (constraints csp) i = Some c_i"
    and csp': "csp' = csp\<lparr>constraints :=
        AList.update i (AList.update j (filter (\<lambda>(x, y). f x y) pairs) c_i) (constraints csp)\<rparr>"
    and j: "map_of c_i j \<noteq> None \<or> map_of (domains csp) j \<noteq> None"
    by (auto simp: add_constraint_one_way_def split: option.splits sum.splits)
  let ?ps = "filter (\<lambda>(x, y). f x y) pairs"
  let ?cons = "AList.update i (AList.update j ?ps c_i) (constraints csp)"
  from map_of_SomeD[OF ci] have ci_mem: "(i, c_i) \<in> set (constraints csp)" .
  have old: "map_of (domains csp) j' \<noteq> None" if "(j', p) \<in> set c_i" for j' p
    using assms(1) ci_mem that by (fastforce simp: well_formed_def list_all_iff)
  have jdom: "map_of (domains csp) j \<noteq> None"
  proof (cases "map_of c_i j")
    case None
    with j show ?thesis by simp
  next
    case (Some p)
    from old[OF map_of_SomeD[OF Some]] show ?thesis .
  qed
  have 2: "list_all (\<lambda>k. map_of ?cons k \<noteq> None) (map fst (domains csp))"
    using assms(1) by (auto simp: well_formed_def list_all_iff update_conv')
  have 3: "list_all (\<lambda>(i, c_i). list_all (\<lambda>(j, pairs). map_of (domains csp) j \<noteq> None) c_i) ?cons"
    unfolding list_all_iff
  proof
    fix e assume "e \<in> set ?cons"
    from set_update_cases[OF this]
    show "case e of (i, c_i) \<Rightarrow> \<forall>x\<in>set c_i. case x of (j, pairs) \<Rightarrow> map_of (domains csp) j \<noteq> None"
    proof
      assume e: "e = (i, AList.update j ?ps c_i)"
      have "map_of (domains csp) j' \<noteq> None" if "(j', p) \<in> set (AList.update j ?ps c_i)" for j' p
        using set_update_cases[OF that] old jdom by auto
      with e show ?thesis by auto
    next
      assume "e \<in> set (constraints csp)"
      with assms(1) show ?thesis by (fastforce simp: well_formed_def list_all_iff)
    qed
  qed
  from assms(1) 2 3 show ?thesis by (simp add: well_formed_def csp')
qed









lemma keys_update_present:
  "map_of a k = Some d \<Longrightarrow> map fst (AList.update k d' a) = map fst a"
proof -
  assume "map_of a k = Some d"
  then have "(k, d) \<in> set a" by (rule map_of_SomeD)
  then have "k \<in> set (map fst a)" by force
  then show ?thesis by (simp add: update_keys)
qed





































section \<open>The states a pass goes through\<close>

text \<open>
  The dictionary as each call of \<open>revise\<close> in the loop of \<open>inference\<close> leaves it, in
  order, up to the point where the loop returns: the same branches as \<open>inference\<close>,
  recording the state instead of the result.
\<close>

function inference_states ::
  "('k, 'v) csp \<Rightarrow> ('k, 'v) assignment \<Rightarrow> 'k arc list \<Rightarrow> ('k, 'v) assignment list" where
  "inference_states csp assignment [] = []"
| "inference_states csp assignment ((x_j, x_i) # queue) =
     (case revise csp assignment x_i x_j of
        Inl e \<Rightarrow> []
      | Inr (assignment', revised) \<Rightarrow>
          assignment' #
          (if revised then
             (case map_of assignment' x_i of
                None \<Rightarrow> []
              | Some d \<Rightarrow>
                  if d = [] then []
                  else (case get_all_neighboring_arcs csp x_i of
                          Inl e \<Rightarrow> []
                        | Inr arcs \<Rightarrow>
                            inference_states csp assignment'
                              (queue @ filter (\<lambda>x. x_j \<noteq> fst x \<and> x_j \<noteq> snd x) arcs)))
           else inference_states csp assignment' queue))"
  by pat_completeness auto
termination
proof (relation "measures [\<lambda>(csp, a, q). dom_size a, \<lambda>(csp, a, q). length q]", goal_cases)
  case 1
  show ?case by simp
next
  case (2 csp assignment x_j x_i queue x2 x1 y2)
  then show ?case using revise_shrinks(2) by fastforce
next
  case (3 csp assignment x_j x_i queue x2 x1 y2)
  then show ?case using revise_shrinks(3) by fastforce
qed

text \<open>
  \<open>narrowed t t'\<close>: \<open>t'\<close> has the variables of \<open>t\<close>, and each of its domains is what
  is left of the domain in \<open>t\<close> after removing values (a subsequence of it). A state
  in which a value removed earlier is back is not narrowed from the state after the
  removal.
\<close>

definition narrowed :: "('k, 'v) assignment \<Rightarrow> ('k, 'v) assignment \<Rightarrow> bool" where
  "narrowed t t' =
     (map fst t' = map fst t \<and>
      (\<forall>k d. map_of t k = Some d \<longrightarrow> (\<exists>d'. map_of t' k = Some d' \<and> subseq d' d)))"

lemma narrowed_refl: "narrowed t t"
  by (simp add: narrowed_def)

lemma narrowed_trans:
  assumes "narrowed t1 t2" and "narrowed t2 t3"
  shows "narrowed t1 t3"
  unfolding narrowed_def
proof (intro conjI allI impI)
  from assms show "map fst t3 = map fst t1" by (simp add: narrowed_def)
next
  fix k d assume "map_of t1 k = Some d"
  with assms(1) obtain d2 where d2: "map_of t2 k = Some d2" and s12: "subseq d2 d"
    unfolding narrowed_def by blast
  from assms(2) d2 obtain d3 where d3: "map_of t3 k = Some d3" and s23: "subseq d3 d2"
    unfolding narrowed_def by blast
  from s23 s12 have "subseq d3 d" by (rule subseq_order.trans)
  with d3 show "\<exists>d'. map_of t3 k = Some d' \<and> subseq d' d" by blast
qed

lemma subseq_pop:
  assumes "i < length d"
  shows "subseq (pop i d) d"
proof -
  from assms have "d = take i d @ d ! i # drop (Suc i) d" by (rule id_take_nth_drop)
  moreover have "subseq (take i d @ drop (Suc i) d) (take i d @ d ! i # drop (Suc i) d)"
    unfolding subseq_append' by (rule list_emb_Cons) (rule subseq_order.refl)
  ultimately show ?thesis by (simp add: pop_def)
qed

lemma revise_loop_subseq:
  "revise_loop csp x_i x_j i d a rv = Inr (a', r) \<Longrightarrow> map_of a x_i = Some d \<Longrightarrow>
     \<exists>d'. a' = AList.update x_i d' a \<and> subseq d' d"
proof (induction csp x_i x_j i d a rv rule: revise_loop.induct)
  case (1 csp x_i x_j i d a rv)
  note unf = revise_loop.simps[of csp x_i x_j i d a rv]
  show ?case
  proof (cases "i < length d")
    case False
    with "1.prems" unf have "a' = a" by simp
    with "1.prems"(2) have "a' = AList.update x_i d a" by (simp add: update_triv)
    then show ?thesis by blast
  next
    case True
    note lt = True
    show ?thesis
    proof (cases "has_support csp a x_i x_j (d ! i)")
      case (Inl e)
      with lt "1.prems" unf show ?thesis by simp
    next
      case (Inr b)
      show ?thesis
      proof (cases b)
        case True
        with Inr lt "1.prems" unf "1.IH"(1)[OF lt Inr] show ?thesis by simp
      next
        case False
        let ?a = "AList.update x_i (pop i d) a"
        from False Inr lt "1.prems" unf
        have run: "revise_loop csp x_i x_j (Suc i) (pop i d) ?a True = Inr (a', r)" by simp
        have m: "map_of ?a x_i = Some (pop i d)" by (rule map_of_update_same)
        from False have bF: "b = False" by simp
        from "1.IH"(2)[OF lt Inr bF run m] obtain d' where
          a': "a' = AList.update x_i d' ?a" and s: "subseq d' (pop i d)" by blast
        from s subseq_pop[OF lt] have "subseq d' d" by (rule subseq_order.trans)
        with a' show ?thesis by (auto simp: update_last)
      qed
    qed
  qed
qed

lemma narrowed_update:
  assumes "map_of t k = Some d" and "subseq d' d"
  shows "narrowed t (AList.update k d' t)"
  using assms keys_update_present[OF assms(1), of d']
  by (auto simp: narrowed_def update_conv')

lemma revise_narrowed:
  assumes "revise csp a x_i x_j = Inr (a1, rv)"
  shows "narrowed a a1"
proof -
  from assms obtain d where d: "map_of a x_i = Some d"
    and run: "revise_loop csp x_i x_j 0 d a False = Inr (a1, rv)"
    by (auto simp: revise_def split: option.splits)
  from revise_loop_subseq[OF run d] obtain d' where
    "a1 = AList.update x_i d' a" "subseq d' d" by blast
  with narrowed_update[OF d] show ?thesis by simp
qed

lemma inference_states_narrowed:
  "inference csp a q = Inr (r, a') \<Longrightarrow>
     a' = last (a # inference_states csp a q)
     \<and> (\<forall>t \<in> set (a # inference_states csp a q). narrowed t a')"
proof (induction csp a q rule: inference.induct)
  case (1 csp assignment)
  then show ?case by (auto simp: narrowed_refl)
next
  case (2 csp assignment x_j x_i queue)
  from "2.prems"(1) obtain a1 rv where rv: "revise csp assignment x_i x_j = Inr (a1, rv)"
    by (auto split: sum.splits)
  note n1 = revise_narrowed[OF rv]
  have step: "?case" if "a' = last (a1 # rest) \<and> (\<forall>t \<in> set (a1 # rest). narrowed t a')"
    and "inference_states csp assignment ((x_j, x_i) # queue) = a1 # rest" for rest
  proof -
    from that(1) have all: "\<forall>t \<in> set (a1 # rest). narrowed t a'" by (rule conjunct2)
    then have "narrowed a1 a'" by (rule bspec) simp
    with n1 have n: "narrowed assignment a'" by (rule narrowed_trans)
    from that(1) have "a' = last (assignment # a1 # rest)" by (simp del: set_simps)
    moreover from n all have "\<forall>t \<in> set (assignment # a1 # rest). narrowed t a'" by simp
    ultimately show ?thesis unfolding that(2) by (rule conjI)
  qed
  show ?case
  proof (cases rv)
    case False
    from "2.prems"(1) rv False have run: "inference csp a1 queue = Inr (r, a')" by simp
    from rv False have st: "inference_states csp assignment ((x_j, x_i) # queue)
        = a1 # inference_states csp a1 queue" by simp
    from step[OF "2.IH"(2)[OF rv refl False run] st] show ?thesis .
  next
    case True
    show ?thesis
    proof (cases "map_of a1 x_i")
      case None
      with "2.prems"(1) rv True show ?thesis by simp
    next
      case (Some d)
      show ?thesis
      proof (cases "d = []")
        case True
        with "2.prems"(1) rv \<open>rv\<close> Some have a': "a' = a1" by simp
        from rv \<open>rv\<close> Some True
        have st: "inference_states csp assignment ((x_j, x_i) # queue) = a1 # []" by simp
        from a' have "a' = last (a1 # []) \<and> (\<forall>t \<in> set (a1 # []). narrowed t a')"
          by (simp add: narrowed_refl)
        from step[OF this st] show ?thesis .
      next
        case False
        from "2.prems"(1) rv \<open>rv\<close> Some False obtain arcs where
          ga: "get_all_neighboring_arcs csp x_i = Inr arcs"
          by (auto split: sum.splits)
        let ?q = "queue @ filter (\<lambda>x. x_j \<noteq> fst x \<and> x_j \<noteq> snd x) arcs"
        from "2.prems"(1) rv \<open>rv\<close> Some False ga
        have run: "inference csp a1 ?q = Inr (r, a')" by simp
        from rv \<open>rv\<close> Some False ga
        have st: "inference_states csp assignment ((x_j, x_i) # queue)
            = a1 # inference_states csp a1 ?q" by simp
        from step[OF "2.IH"(1)[OF rv refl \<open>rv\<close> Some False ga run] st] show ?thesis .
      qed
    qed
  qed
qed

text \<open>What \<open>inference\<close> returns, against the state it leaves behind.\<close>

lemma inference_result_state:
  "inference csp a q = Inr (r, a') \<Longrightarrow>
     (case r of
        Some returned \<Rightarrow> returned = a'
      | None \<Rightarrow> (\<exists>x. map_of a' x = Some []) \<and> dom_size a' < dom_size a \<and> a' \<noteq> a)"
proof (induction csp a q rule: inference.induct)
  case (1 csp assignment)
  then show ?case by auto
next
  case (2 csp assignment x_j x_i queue)
  from "2.prems"(1) obtain a1 rv where rv: "revise csp assignment x_i x_j = Inr (a1, rv)"
    by (auto split: sum.splits)
  note le = revise_shrinks(1)[OF rv]
  show ?case
  proof (cases rv)
    case False
    from "2.prems"(1) rv False have "inference csp a1 queue = Inr (r, a')" by simp
    from "2.IH"(2)[OF rv refl _ this] False le show ?thesis
      by (auto split: option.splits)
  next
    case True
    note lt = revise_shrinks(2)[OF rv True]
    show ?thesis
    proof (cases "map_of a1 x_i")
      case None
      with "2.prems"(1) rv True show ?thesis by simp
    next
      case (Some d)
      show ?thesis
      proof (cases "d = []")
        case True
        with "2.prems"(1) rv \<open>rv\<close> Some lt show ?thesis by auto
      next
        case False
        from "2.prems"(1) rv \<open>rv\<close> Some False obtain arcs where
          ga: "get_all_neighboring_arcs csp x_i = Inr arcs"
          by (auto split: sum.splits)
        let ?q = "queue @ filter (\<lambda>x. x_j \<noteq> fst x \<and> x_j \<noteq> snd x) arcs"
        from "2.prems"(1) rv \<open>rv\<close> Some False ga
        have run: "inference csp a1 ?q = Inr (r, a')" by simp
        from "2.IH"(1)[OF rv refl \<open>rv\<close> Some False ga run] le show ?thesis
          by (auto split: option.splits)
      qed
    qed
  qed
qed

section \<open>Claims\<close>

text \<open>
  C1 (soundness of solve), evaluated at \<open>csp_equal\<close>: \<open>backtracking_search\<close> returns
  the assignment \<open>A = 2, B = 4\<close> after a single search call, although the legal-pair
  list of \<open>(A, B)\<close> is empty; the returned assignment is not a solution. The pre-pass
  removes \<open>1\<close> from \<open>A\<close> and \<open>3\<close> from \<open>B\<close> and steps over \<open>2\<close> and \<open>4\<close>,
  because \<open>revise\<close> pops from the list it is enumerating.
\<close>

theorem solve_unsound_at_csp_equal:
  "backtracking_search csp_equal counters_init =
     (Inr (Some [(''A'', [2]), (''B'', [4])]),
      \<lparr>backtrack_call_count = 1, failure_count = 0\<rparr>)
   \<and> constraint_of csp_equal ''A'' ''B'' = Some []
   \<and> \<not> is_solution csp_equal [(''A'', [2]), (''B'', [4])]"
  by code_simp

text \<open>
  C5 (postcondition of revise), evaluated at \<open>csp_equal\<close> with the arc target \<open>A\<close>
  and neighbour \<open>B\<close>: neither \<open>1\<close> nor \<open>2\<close> has a support in the domain of \<open>B\<close>,
  yet one call removes only \<open>1\<close> and leaves \<open>2\<close> in the domain of \<open>A\<close>.
\<close>

theorem revise_skips_at_csp_equal:
  "revise csp_equal [(''A'', [1, 2]), (''B'', [3, 4])] ''A'' ''B''
     = Inr ([(''A'', [2]), (''B'', [3, 4])], True)
   \<and> has_support csp_equal [(''A'', [1, 2]), (''B'', [3, 4])] ''A'' ''B'' 2 = Inr False"
  by code_simp




text \<open>
  C3 (unsatisfiability signalling), evaluated at \<open>csp_unequal\<close>: the pre-pass
  empties the domain of \<open>B\<close> and returns the failure value, but
  \<open>backtracking_search\<close> does not look at it: \<open>backtrack\<close> is entered (the call
  counter becomes 1) and \<open>select_unassigned_variable\<close> raises \<open>IndexError\<close>, since
  no domain has more than one value.
\<close>

theorem prepass_wipeout_raises_at_csp_unequal:
  "inference csp_unequal (domains csp_unequal) (get_all_arcs csp_unequal)
     = Inr (None, [(''A'', [1]), (''B'', [])])
   \<and> backtracking_search csp_unequal counters_init
     = (Inl IndexError, \<lparr>backtrack_call_count = 1, failure_count = 0\<rparr>)"
  by code_simp

text \<open>
  C6 (idempotence of the arc-consistency pass), evaluated at \<open>csp_chain\<close>: the first
  pass over all arcs leaves \<open>A = [2, 5]\<close>, a second pass on that result removes
  \<open>2\<close> as well. Both passes succeed.
\<close>

theorem inference_twice_differs_at_csp_chain:
  "inference csp_chain (domains csp_chain) (get_all_arcs csp_chain)
     = Inr (Some [(''A'', [2, 5]), (''B'', [5])], [(''A'', [2, 5]), (''B'', [5])])
   \<and> inference csp_chain [(''A'', [2, 5]), (''B'', [5])] (get_all_arcs csp_chain)
     = Inr (Some [(''A'', [5]), (''B'', [5])], [(''A'', [5]), (''B'', [5])])"
  by code_simp

text \<open>
  C7 as stated fails at \<open>csp_pigeon\<close>: nothing resets the counters, so a second
  call that starts from the counters the first call left reports 10 calls and 10
  failures where the first reported 5 and 5.
\<close>

theorem counters_not_reset_at_csp_pigeon:
  "backtracking_search csp_pigeon counters_init
     = (Inr None, \<lparr>backtrack_call_count = 5, failure_count = 5\<rparr>)
   \<and> backtracking_search csp_pigeon \<lparr>backtrack_call_count = 5, failure_count = 5\<rparr>
     = (Inr None, \<lparr>backtrack_call_count = 10, failure_count = 10\<rparr>)"
  by code_simp

text \<open>
  C7, amended: the counters are running totals that \<open>backtracking_search\<close> never
  resets. For a fixed model the returned value does not depend on the counters, and
  each call adds to each counter exactly what a call from zero counts.
\<close>

theorem counters_accumulate:
  "fst (backtracking_search csp cnt) = fst (backtracking_search csp counters_init)
   \<and> backtrack_call_count (snd (backtracking_search csp cnt))
       = backtrack_call_count (snd (backtracking_search csp counters_init))
         + backtrack_call_count cnt
   \<and> failure_count (snd (backtracking_search csp cnt))
       = failure_count (snd (backtracking_search csp counters_init)) + failure_count cnt"
proof (cases "inference csp (domains csp) (get_all_arcs csp)")
  case (Inl e)
  then show ?thesis by (simp add: backtracking_search_def counters_init_def)
next
  case (Inr ba)
  obtain inf_res a where ba: "ba = (inf_res, a)" by (cases ba)
  obtain r c' where bt: "backtrack csp a counters_init = (r, c')" by fastforce
  from search_shift(1)[OF bt, of cnt]
  have "backtrack csp a cnt = (r, add_counters c' cnt)" by (simp add: add_counters_init)
  with bt Inr ba show ?thesis by (simp add: backtracking_search_def add_counters_def)
qed

text \<open>
  C4 (branch isolation): the loop of \<open>backtrack\<close>, which reuses one dictionary
  \<open>ass2\<close> for all candidates and hands it to \<open>inference\<close> to mutate, computes
  exactly what the loop on a fresh clone per candidate computes, for every model, key,
  snapshot, candidate list and counter state. A pass seeded with the arcs of the selected
  variable only ever rewrites that variable's domain, which the next iteration
  overwrites; the recursive call works on its own deep copy.
\<close>

theorem branch_isolation:
  "try_values csp key ass2 vals cnt = try_values_cloned csp key ass2 vals cnt"
proof (induction vals arbitrary: cnt)
  case Nil
  show ?case by simp
next
  case (Cons val rest)
  show ?case
  proof (cases "get_all_neighboring_arcs csp key")
    case (Inl e)
    then show ?thesis by simp
  next
    case (Inr arcs)
    note ga = Inr
    show ?thesis
    proof (cases "inference csp (AList.update key [val] ass2) arcs")
      case (Inl e)
      with ga show ?thesis by simp
    next
      case (Inr b)
      obtain inf_res ass2' where b: "b = (inf_res, ass2')" by (cases b)
      note inf = Inr[unfolded b]
      have "\<And>c. try_values csp key ass2' rest c = try_values csp key ass2 rest c"
        by (rule try_values_frame) (rule try_frame[OF ga inf])
      with Cons.IH have "\<And>c. try_values csp key ass2' rest c = try_values_cloned csp key ass2 rest c"
        by simp
      with ga inf show ?thesis by (simp split: prod.splits sum.splits)
    qed
  qed
qed

text \<open>
  C8 as stated fails at \<open>csp_differ\<close>: registering \<open>A\<close> again is accepted without
  error, lists \<open>A\<close> twice among the variables and drops the constraint from \<open>A\<close>
  to \<open>B\<close> while keeping the one from \<open>B\<close> to \<open>A\<close>; the model that was solved
  before now makes \<open>backtracking_search\<close> raise \<open>KeyError\<close>.
\<close>

theorem add_variable_twice_at_csp_differ:
  "add_variable ''A'' [1, 2] csp_differ =
     \<lparr>variables = [''A'', ''B'', ''A''],
      domains = [(''A'', [1, 2]), (''B'', [1, 2])],
      constraints = [(''A'', []), (''B'', [(''A'', [(1, 2), (2, 1)])])]\<rparr>
   \<and> fst (backtracking_search csp_differ counters_init) = Inr (Some [(''A'', [1]), (''B'', [2])])
   \<and> fst (backtracking_search (add_variable ''A'' [1, 2] csp_differ) counters_init) = Inl KeyError"
  by code_simp

text \<open>
  C8, amended: \<open>add_variable\<close> never fails. For a name that already has a domain it
  appends the name to the list of variables once more, replaces the domain in place
  (the order of the dictionary is kept), empties the name's own constraint table, and
  leaves the constraint tables of all other variables as they were.
\<close>

theorem add_variable_registered:
  assumes "name \<in> set (map fst (domains csp))"
  shows "variables (add_variable name d csp) = variables csp @ [name]
     \<and> map fst (domains (add_variable name d csp)) = map fst (domains csp)
     \<and> map_of (domains (add_variable name d csp)) name = Some d
     \<and> constraint_of (add_variable name d csp) name j = None
     \<and> (i \<noteq> name \<longrightarrow> constraint_of (add_variable name d csp) i j = constraint_of csp i j)"
  using assms
  by (simp add: add_variable_def update_keys update_conv' constraint_of_def)

theorem add_variable_registered_witness:
  "''A'' \<in> set (map fst (domains csp_differ))
   \<and> variables (add_variable ''A'' [7] csp_differ) = variables csp_differ @ [''A'']
   \<and> map fst (domains (add_variable ''A'' [7] csp_differ)) = map fst (domains csp_differ)
   \<and> map_of (domains (add_variable ''A'' [7] csp_differ)) ''A'' = Some [7]
   \<and> constraint_of (add_variable ''A'' [7] csp_differ) ''A'' ''B'' = None
   \<and> constraint_of (add_variable ''A'' [7] csp_differ) ''B'' ''A''
       = constraint_of csp_differ ''B'' ''A''"
proof -
  have h: "''A'' \<in> set (map fst (domains csp_differ))" by (simp add: csp_differ_def)
  have ne: "''B'' \<noteq> ''A''" by simp
  from add_variable_registered[OF h, where d = "[7]" and j = "''B''" and i = "''B''"]
    constraint_of_update_other[of "''B''" "''A''"] ne h
  show ?thesis by (simp add: add_variable_def constraint_of_def update_conv')
qed

text \<open>
  C9 (termination of AC-3): for every model, assignment and initial queue, the queue
  loop returns within \<open>length queue + dom_size assignment * length (get_all_arcs csp)\<close>
  iterations (any larger budget \<open>+ k\<close> gives the same result), and what it returns
  is the value of \<open>inference\<close>. A revision removes at least one value and enqueues at
  most as many arcs as the model has.
\<close>

theorem inference_terminates:
  "inference_fuel (length q + dom_size a * length (get_all_arcs csp) + k) csp a q
     = Some (inference csp a q)"
proof (induction csp a q arbitrary: k rule: inference.induct)
  case (1 csp assignment)
  show ?case by simp
next
  case (2 csp assignment x_j x_i queue)
  let ?N = "length (get_all_arcs csp)"
  let ?D = "dom_size assignment"
  have fuel: "length ((x_j, x_i) # queue) + ?D * ?N + k = Suc (length queue + ?D * ?N + k)"
    by simp
  show ?case
  proof (cases "revise csp assignment x_i x_j")
    case (Inl e)
    then show ?thesis unfolding fuel by simp
  next
    case (Inr b)
    obtain a1 rv where b: "b = (a1, rv)" by (cases b)
    note rv = Inr[unfolded b]
    show ?thesis
    proof (cases rv)
      case False
      from revise_shrinks(3)[OF rv False] have eq: "a1 = assignment" .
      from "2.IH"(2)[OF rv refl False, of k] rv False eq show ?thesis
        unfolding fuel by simp
    next
      case True
      note lt = revise_shrinks(2)[OF rv True]
      show ?thesis
      proof (cases "map_of a1 x_i")
        case None
        with rv True show ?thesis unfolding fuel by simp
      next
        case (Some d)
        show ?thesis
        proof (cases "d = []")
          case True
          with rv \<open>rv\<close> Some show ?thesis unfolding fuel by simp
        next
          case False
          show ?thesis
          proof (cases "get_all_neighboring_arcs csp x_i")
            case (Inl e)
            with rv \<open>rv\<close> Some False show ?thesis unfolding fuel by simp
          next
            case (Inr arcs)
            let ?q = "queue @ filter (\<lambda>x. x_j \<noteq> fst x \<and> x_j \<noteq> snd x) arcs"
            have "length (filter (\<lambda>x. x_j \<noteq> fst x \<and> x_j \<noteq> snd x) arcs) \<le> ?N"
              by (rule order_trans[OF length_filter_le neighboring_arcs_length[OF Inr]])
            then have lq: "length ?q \<le> length queue + ?N" by simp
            from lt have "Suc (dom_size a1) \<le> ?D" by simp
            from fuel_arith[OF lq this] obtain k' where
              k': "length queue + ?D * ?N + k = length ?q + dom_size a1 * ?N + k'"
              by blast
            have "inference_fuel (length queue + ?D * ?N + k) csp a1 ?q
                    = Some (inference csp a1 ?q)"
              unfolding k' by (rule "2.IH"(1)[OF rv refl \<open>rv\<close> Some False Inr])
            with rv \<open>rv\<close> Some False Inr show ?thesis unfolding fuel by simp
          qed
        qed
      qed
    qed
  qed
qed

text \<open>
  C10 (inference mutates in place and is not atomic on failure): whenever \<open>inference\<close>
  returns, the state it leaves the caller's dictionary in is the state after the last
  call of \<open>revise\<close>, and it is narrowed from the initial state and from the state after
  every single revision of the pass: no value removed at any point is back, whether
  the pass succeeds or fails. A returned dictionary is that state. When the failure
  value is returned, the state has an empty domain, holds strictly fewer values than
  before the call and differs from what the caller passed in.
\<close>

theorem inference_mutates_in_place:
  "inference csp a q = Inr (r, a') \<Longrightarrow>
     a' = last (a # inference_states csp a q)
     \<and> (\<forall>t \<in> set (a # inference_states csp a q). narrowed t a')
     \<and> (case r of
          Some returned \<Rightarrow> returned = a'
        | None \<Rightarrow> (\<exists>x. map_of a' x = Some []) \<and> dom_size a' < dom_size a \<and> a' \<noteq> a)"
  using inference_states_narrowed[of csp a q r a'] inference_result_state[of csp a q r a']
  by blast

text \<open>
  At \<open>csp_late\<close> the pass removes \<open>1\<close> from \<open>A\<close> before it empties \<open>B\<close> and
  fails: the state left behind has \<open>A = [2]\<close>, and the state with \<open>1\<close> restored is not
  narrowed from the state after the first removal.
\<close>

theorem inference_mutates_in_place_witness:
  "inference csp_late (domains csp_late) (get_all_arcs csp_late)
     = Inr (None, [(''B'', []), (''A'', [2])])
   \<and> inference_states csp_late (domains csp_late) (get_all_arcs csp_late)
     = [[(''B'', [3]), (''A'', [2])], [(''B'', []), (''A'', [2])]]
   \<and> narrowed (domains csp_late) [(''B'', []), (''A'', [2])]
   \<and> narrowed [(''B'', [3]), (''A'', [2])] [(''B'', []), (''A'', [2::int])]
   \<and> \<not> narrowed [(''B'', [3]), (''A'', [2])] [(''B'', []), (''A'', [1, 2::int])]
   \<and> (\<exists>x. map_of [(''B'', []), (''A'', [2::int])] x = Some [])
   \<and> dom_size [(''B'', []), (''A'', [2::int])] < dom_size (domains csp_late)
   \<and> [(''B'', []), (''A'', [2::int])] \<noteq> domains csp_late"
proof -
  let ?F = "[(''B'', []), (''A'', [2::int])]"
  let ?S = "[(''B'', [3]), (''A'', [2::int])]"
  have h: "inference csp_late (domains csp_late) (get_all_arcs csp_late) = Inr (None, ?F)"
    by code_simp
  have st: "inference_states csp_late (domains csp_late) (get_all_arcs csp_late) = [?S, ?F]"
    by code_simp
  note res = inference_mutates_in_place[OF h, unfolded st]
  from res have all: "\<forall>t \<in> set [domains csp_late, ?S, ?F]. narrowed t ?F" by blast
  from all have n0: "narrowed (domains csp_late) ?F" by simp
  from all have n1: "narrowed ?S ?F" by simp
  have restored: "\<not> narrowed ?S [(''B'', []), (''A'', [1, 2::int])]"
  proof
    assume "narrowed ?S [(''B'', []), (''A'', [1, 2::int])]"
    then have "\<forall>k d. map_of ?S k = Some d \<longrightarrow>
        (\<exists>d'. map_of [(''B'', []), (''A'', [1, 2::int])] k = Some d' \<and> subseq d' d)"
      unfolding narrowed_def by (rule conjunct2)
    then have "map_of ?S ''A'' = Some [2] \<longrightarrow>
        (\<exists>d'. map_of [(''B'', []), (''A'', [1, 2::int])] ''A'' = Some d' \<and> subseq d' [2])"
      by blast
    then show False by simp
  qed
  from res have rest: "(\<exists>x. map_of ?F x = Some []) \<and> dom_size ?F < dom_size (domains csp_late)
      \<and> ?F \<noteq> domains csp_late" by simp
  from h st n0 n1 restored rest show ?thesis by blast
qed

end
